theory Spec2Isabelle
  imports Complex_Main "HOL-Library.Multiset"
begin

section \<open>Data model of functree-timer\<close>

text \<open>
  A tracking entry is the 6-tuple
  \<^verbatim>\<open>(func_name, duration, func_type, depth, parent_id, call_id)\<close>
  that the wrappers append to the thread-local tracking list. Strings are the UTF-8 bytes
  that end up in the log file. A duration is a Python float produced by subtracting two
  clock readings; it is represented by the rational number it denotes, which is all that
  the comparison with \<^verbatim>\<open>minimum_duration\<close>, the sort by duration and the
  \<^verbatim>\<open>.4f\<close> formatting look at.
\<close>

record entry =
  func_name :: string
  duration :: rat
  func_type :: string
  depth :: nat
  parent_id :: "int option"
  call_id :: int

type_synonym tree = "int \<rightharpoonup> entry list"

text \<open>
  The thread-local state (\<^verbatim>\<open>_thread_local.call_stack\<close>, \<^verbatim>\<open>.call_id_counter\<close>,
  \<^verbatim>\<open>.tracking\<close>), together with the contents of the log files, keyed by path.
  The lazily created attributes start as the empty list and 0.
\<close>

record ctx =
  call_stack :: "(string \<times> int) list"
  call_id_counter :: int
  tracking :: "entry list"
  files :: "string \<Rightarrow> string"

definition init_ctx :: ctx where
  "init_ctx = \<lparr>call_stack = [], call_id_counter = 0, tracking = [], files = (\<lambda>p. [])\<rparr>"

text \<open>The argument \<^verbatim>\<open>top_k\<close>: the string "full", \<^verbatim>\<open>None\<close>, or an integer.\<close>

datatype topk = Full | NoTopK | TopK int

section \<open>Building the tree\<close>

text \<open>The loop of \<^verbatim>\<open>_build_call_tree\<close> over the tracking list.\<close>

fun build_loop :: "entry list \<Rightarrow> entry list \<times> tree \<Rightarrow> entry list \<times> tree" where
  "build_loop [] acc = acc"
| "build_loop (e # es) (root_nodes, tree) =
     (case parent_id e of
        None \<Rightarrow> build_loop es (root_nodes @ [e], tree)
      | Some p \<Rightarrow>
          build_loop es
            (root_nodes, tree(p \<mapsto> (case tree p of None \<Rightarrow> [] | Some cs \<Rightarrow> cs) @ [e])))"

text \<open>
  \<^verbatim>\<open>_build_call_tree\<close>: after the loop every children list is sorted by call id
  (Python's sort is stable, as is \<^const>\<open>sort_key\<close>).
\<close>

definition build_call_tree :: "entry list \<Rightarrow> entry list \<times> tree" where
  "build_call_tree trk =
     (case build_loop trk ([], Map.empty) of
        (root_nodes, tree) \<Rightarrow> (root_nodes, \<lambda>p. map_option (sort_key call_id) (tree p)))"

text \<open>
  Lines 75 to 77 of \<^verbatim>\<open>_log_top_functions\<close>: the tree is built and the root list is
  sorted by call id. This is the tree the filter and the renderer start from.
\<close>

definition build_sorted :: "entry list \<Rightarrow> entry list \<times> tree" where
  "build_sorted trk =
     (case build_call_tree trk of (root_nodes, tree) \<Rightarrow> (sort_key call_id root_nodes, tree))"

section \<open>Rendering\<close>

text \<open>Decimal digits of a natural number.\<close>

fun digit_char :: "nat \<Rightarrow> char" where
  "digit_char n = char_of (48 + n mod 10)"

fun show_nat :: "nat \<Rightarrow> string" where
  "show_nat n = (if n < 10 then [digit_char n] else show_nat (n div 10) @ [digit_char n])"

declare show_nat.simps [simp del]

text \<open>
  Rounding to the nearest integer, ties to even: the exact decimal rounding that
  \<^verbatim>\<open>format(x, ".4f")\<close> applies to the value of a float.
\<close>

definition round_half_even :: "rat \<Rightarrow> int" where
  "round_half_even x =
     (case quotient_of x of (a, b) \<Rightarrow>
        (let q = a div b; r = a mod b in
         if 2 * r < b then q else if b < 2 * r then q + 1
         else if even q then q else q + 1))"

text \<open>\<^verbatim>\<open>f"{duration:.4f}"\<close>.\<close>

definition fmt4 :: "rat \<Rightarrow> string" where
  "fmt4 d =
     (let n = nat (round_half_even (\<bar>d\<bar> * 10000));
          frac = n mod 10000
      in (if d < 0 then ''-'' else '''') @ show_nat (n div 10000) @ ''.'' @
         [digit_char (frac div 1000), digit_char (frac div 100),
          digit_char (frac div 10), digit_char frac])"

text \<open>The two connectors, as UTF-8: U+2514 U+2500 U+2500 space, and U+251C U+2500 U+2500 space.\<close>

definition last_prefix :: string where
  "last_prefix = [CHR 0xE2, CHR 0x94, CHR 0x94, CHR 0xE2, CHR 0x94, CHR 0x80,
                  CHR 0xE2, CHR 0x94, CHR 0x80, CHR '' '']"

definition mid_prefix :: string where
  "mid_prefix = [CHR 0xE2, CHR 0x94, CHR 0x9C, CHR 0xE2, CHR 0x94, CHR 0x80,
                 CHR 0xE2, CHR 0x94, CHR 0x80, CHR '' '']"

text \<open>The line of one node: \<^verbatim>\<open>node_str\<close> in \<^verbatim>\<open>_format_tree_node\<close>.\<close>

definition node_str :: "nat \<Rightarrow> string \<Rightarrow> entry \<Rightarrow> string" where
  "node_str indent prefix e =
     concat (replicate indent ''    '') @ prefix @ func_name e @ '' ('' @ func_type e @
     '') took '' @ fmt4 (duration e) @ '' seconds''"

text \<open>
  \<^verbatim>\<open>_format_tree_node\<close>. The recursion follows the children mapping, which need not
  be well-founded for an arbitrary mapping, so the function takes the number of nested
  activations it may use and returns \<^const>\<open>None\<close> when that does not suffice.
  \<open>format_children\<close> is the loop over \<^verbatim>\<open>enumerate(children)\<close>: \<open>n\<close> is
  \<^verbatim>\<open>len(children)\<close> and \<open>i\<close> the index of the next child.
\<close>

fun format_tree_node :: "nat \<Rightarrow> entry \<Rightarrow> tree \<Rightarrow> nat \<Rightarrow> string \<Rightarrow> string list option"
  and format_children :: "nat \<Rightarrow> tree \<Rightarrow> nat \<Rightarrow> nat \<Rightarrow> nat \<Rightarrow> entry list \<Rightarrow> string list option"
where
  "format_tree_node 0 e tree indent prefix = None"
| "format_tree_node (Suc fuel) e tree indent prefix =
     (case tree (call_id e) of
        None \<Rightarrow> Some [node_str indent prefix e]
      | Some children \<Rightarrow>
          map_option (\<lambda>ls. node_str indent prefix e # ls)
            (format_children fuel tree indent (length children) 0 children))"
| "format_children fuel tree indent n i [] = Some []"
| "format_children fuel tree indent n i (child # rest) =
     (let is_last = (int i = int n - 1);
          child_prefix = (if is_last then last_prefix else mid_prefix)
      in case format_tree_node fuel child tree (indent + 1) child_prefix of
           None \<Rightarrow> None
         | Some child_lines \<Rightarrow>
             map_option (\<lambda>ls. child_lines @ ls)
               (format_children fuel tree indent n (i + 1) rest))"

section \<open>The significance filter\<close>

text \<open>
  \<^verbatim>\<open>collect_nodes\<close>: the result is the sequence of entries that one activation appends
  to \<^verbatim>\<open>all_nodes\<close>, in order. As above, the first argument bounds the nesting of
  activations.
\<close>

fun collect_nodes :: "nat \<Rightarrow> tree \<Rightarrow> entry list \<Rightarrow> entry list option" where
  "collect_nodes 0 tree entries = None"
| "collect_nodes (Suc fuel) tree [] = Some []"
| "collect_nodes (Suc fuel) tree (e # es) =
     (case tree (call_id e) of
        None \<Rightarrow> map_option (\<lambda>ns. e # ns) (collect_nodes (Suc fuel) tree es)
      | Some children \<Rightarrow>
          (case collect_nodes fuel tree children of
             None \<Rightarrow> None
           | Some sub \<Rightarrow> map_option (\<lambda>ns. e # sub @ ns) (collect_nodes (Suc fuel) tree es)))"

text \<open>
  The slice \<^verbatim>\<open>all_nodes[:top_k]\<close>: a negative bound counts from the end of the list.
\<close>

definition slice_to :: "int \<Rightarrow> 'a list \<Rightarrow> 'a list" where
  "slice_to k xs = (if 0 \<le> k then take (nat k) xs else take (length xs - nat (- k)) xs)"

text \<open>
  \<^verbatim>\<open>filter_tree\<close>. It rebinds entries of the dictionary \<^verbatim>\<open>tree\<close> while it runs, so
  the dictionary is passed through: the result is the list \<^verbatim>\<open>filtered\<close> and the
  dictionary as the activation leaves it. The list an activation iterates over is never
  itself mutated (only dictionary slots are rebound to new lists).
\<close>

fun filter_tree :: "nat \<Rightarrow> int set \<Rightarrow> tree \<Rightarrow> entry list \<Rightarrow> (entry list \<times> tree) option" where
  "filter_tree 0 top_call_ids tree entries = None"
| "filter_tree (Suc fuel) top_call_ids tree [] = Some ([], tree)"
| "filter_tree (Suc fuel) top_call_ids tree (e # es) =
     (if call_id e \<in> top_call_ids then
        (case tree (call_id e) of
           None \<Rightarrow>
             map_option (\<lambda>(filtered, t). (e # filtered, t))
               (filter_tree (Suc fuel) top_call_ids tree es)
         | Some cs \<Rightarrow>
             (case filter_tree fuel top_call_ids tree cs of
                None \<Rightarrow> None
              | Some (children, tree1) \<Rightarrow>
                  map_option (\<lambda>(filtered, t). (e # filtered, t))
                    (filter_tree (Suc fuel) top_call_ids
                       (if children \<noteq> [] then tree1(call_id e \<mapsto> children) else tree1) es)))
      else
        (case tree (call_id e) of
           None \<Rightarrow> filter_tree (Suc fuel) top_call_ids tree es
         | Some cs \<Rightarrow>
             (case filter_tree fuel top_call_ids tree cs of
                None \<Rightarrow> None
              | Some (children, tree1) \<Rightarrow>
                  if children \<noteq> [] then
                    map_option (\<lambda>(filtered, t). (e # filtered, t))
                      (filter_tree (Suc fuel) top_call_ids (tree1(call_id e \<mapsto> children)) es)
                  else filter_tree (Suc fuel) top_call_ids tree1 es)))"

text \<open>
  Lines 80 to 111 of \<^verbatim>\<open>_log_top_functions\<close>: with an integer \<^verbatim>\<open>top_k\<close> the nodes
  reachable from the roots are collected, sorted by duration, largest first (a stable
  sort), cut to the slice \<^verbatim>\<open>[:top_k]\<close>, and the tree is filtered by the call ids kept.
\<close>

definition top_call_ids_of :: "int \<Rightarrow> entry list \<Rightarrow> int set" where
  "top_call_ids_of k all_nodes =
     set (map call_id (slice_to k (sort_key (\<lambda>x. - duration x) all_nodes)))"

definition apply_top_k :: "nat \<Rightarrow> topk \<Rightarrow> entry list \<times> tree \<Rightarrow> (entry list \<times> tree) option" where
  "apply_top_k fuel top_k rt =
     (case rt of (root_nodes, tree) \<Rightarrow>
        (case top_k of
           TopK k \<Rightarrow>
             (case collect_nodes fuel tree root_nodes of
                None \<Rightarrow> None
              | Some all_nodes \<Rightarrow> filter_tree fuel (top_call_ids_of k all_nodes) tree root_nodes)
         | _ \<Rightarrow> Some (root_nodes, tree)))"

section \<open>The flush\<close>

text \<open>The lines of all roots, in root order: the loop of lines 118 to 121.\<close>

fun format_roots :: "nat \<Rightarrow> tree \<Rightarrow> entry list \<Rightarrow> string list option" where
  "format_roots fuel tree [] = Some []"
| "format_roots fuel tree (rt # rest) =
     (case format_tree_node fuel rt tree 0 [] of
        None \<Rightarrow> None
      | Some lines \<Rightarrow> map_option (\<lambda>ls. lines @ ls) (format_roots fuel tree rest))"

text \<open>What is appended to the file: every line with a newline, then the separator.\<close>

definition flush_text :: "string list \<Rightarrow> string" where
  "flush_text lines = concat (map (\<lambda>l. l @ [CHR 0x0A]) lines) @ ''------'' @ [CHR 0x0A]"

text \<open>
  \<^verbatim>\<open>_log_top_functions\<close>. Directory creation and I/O failures of the sink are outside
  the model: the file at \<^verbatim>\<open>logFile\<close> is appended to.
\<close>

definition log_top_functions :: "nat \<Rightarrow> string \<Rightarrow> topk \<Rightarrow> ctx \<Rightarrow> ctx option" where
  "log_top_functions fuel logFile top_k s =
     (if tracking s = [] then Some s
      else
        (case apply_top_k fuel top_k (build_sorted (tracking s)) of
           None \<Rightarrow> None
         | Some (root_nodes, tree) \<Rightarrow>
             (case (if root_nodes \<noteq> [] then
                      map_option
                        (\<lambda>lines. s\<lparr>files := (files s)(logFile := files s logFile @ flush_text lines)\<rparr>)
                        (format_roots fuel tree root_nodes)
                    else Some s) of
                None \<Rightarrow> None
              | Some s1 \<Rightarrow> Some (s1\<lparr>tracking := [], call_stack := []\<rparr>))))"

section \<open>The wrappers\<close>

text \<open>
  The arguments of \<^verbatim>\<open>timeit\<close> that the wrappers use; \<open>log_path\<close> is the path after the
  default has been substituted for \<^verbatim>\<open>None\<close>.
\<close>

record config =
  log_path :: string
  minimum_duration :: rat
  top_k :: topk

text \<open>
  One activation of a wrapped function: its name, whether it is a coroutine function,
  the configuration of its decorator, the clock difference measured around it, whether the
  wrapped function returned or raised (and which error), and the wrapped calls that the
  function made, in order. A cancelled coroutine is one that raises at its await.
\<close>

datatype outcome = Returned | Raised string

datatype call = Call (cname: string) (casync: bool) (cconf: config) (cdur: rat)
  (cout: outcome) (cbody: "call list")

text \<open>
  \<^verbatim>\<open>sync_wrapper\<close> and \<^verbatim>\<open>async_wrapper\<close>, which differ in the tag of the record only.
  The local \<^verbatim>\<open>call_stack\<close> and the attribute \<^verbatim>\<open>_thread_local.call_stack\<close> are the same
  list during an activation: the attribute is rebound only by \<^verbatim>\<open>_log_top_functions\<close>,
  which a wrapper calls only when that list is empty, that is, when no activation is open.
  Popping an empty list raises \<^verbatim>\<open>IndexError\<close>.
\<close>

fun run_call :: "nat \<Rightarrow> call \<Rightarrow> ctx \<Rightarrow> (outcome \<times> ctx) option"
  and run_body :: "nat \<Rightarrow> call list \<Rightarrow> ctx \<Rightarrow> ctx option"
where
  "run_call fuel (Call name is_async conf dur out body) s =
     (let cid = call_id_counter s + 1;
          s1 = s\<lparr>call_id_counter := cid\<rparr>;
          par = (if call_stack s1 \<noteq> [] then Some (snd (last (call_stack s1))) else None);
          dep = length (call_stack s1);
          s2 = s1\<lparr>call_stack := call_stack s1 @ [(name, cid)]\<rparr>
      in case run_body fuel body s2 of
           None \<Rightarrow> None
         | Some s3 \<Rightarrow>
             if call_stack s3 = [] then Some (Raised ''IndexError'', s3)
             else
               (let s4 = s3\<lparr>call_stack := butlast (call_stack s3)\<rparr>
                in case out of
                     Raised err \<Rightarrow> Some (Raised err, s4)
                   | Returned \<Rightarrow>
                       if minimum_duration conf \<le> dur then
                         (let s5 = s4\<lparr>tracking := tracking s4 @
                                    [\<lparr>func_name = name, duration = dur,
                                      func_type = (if is_async then ''async'' else ''sync''),
                                      depth = dep, parent_id = par, call_id = cid\<rparr>]\<rparr>
                          in if length (call_stack s5) = 0 then
                               map_option (Pair Returned)
                                 (log_top_functions fuel (log_path conf) (top_k conf) s5)
                             else Some (Returned, s5))
                       else Some (Returned, s4)))"
| "run_body fuel [] s = Some s"
| "run_body fuel (c # cs) s =
     (case run_call fuel c s of None \<Rightarrow> None | Some (r, s') \<Rightarrow> run_body fuel cs s')"


section \<open>The dynamic call nesting\<close>

text \<open>
  The calls of an activation tree are numbered in the order in which they start.
  \<open>ncalls c\<close> is the number of activations in \<open>c\<close>.
\<close>

fun ncalls :: "call \<Rightarrow> nat" and ncalls_body :: "call list \<Rightarrow> nat" where
  "ncalls (Call name is_async conf dur out body) = Suc (ncalls_body body)"
| "ncalls_body [] = 0"
| "ncalls_body (c # cs) = ncalls c + ncalls_body cs"

text \<open>The record of a call that started at nesting depth \<open>d\<close> under the call \<open>par\<close>.\<close>

definition record_of :: "call \<Rightarrow> nat \<Rightarrow> int option \<Rightarrow> int \<Rightarrow> entry" where
  "record_of c d par cid =
     \<lparr>func_name = cname c, duration = cdur c,
      func_type = (if casync c then ''async'' else ''sync''),
      depth = d, parent_id = par, call_id = cid\<rparr>"

text \<open>A call leaves a record when it returns and its duration reaches the threshold.\<close>

definition recorded :: "call \<Rightarrow> bool" where
  "recorded c \<longleftrightarrow> cout c = Returned \<and> minimum_duration (cconf c) \<le> cdur c"

text \<open>
  The records that the dynamic nesting prescribes for a call that starts when the counter
  is \<open>n\<close>, at depth \<open>d\<close>, inside the call with id \<open>par\<close>: the call gets the id
  \<open>n + 1\<close>, the calls it makes are nested in it one level deeper, and a record is listed
  when its call ends.
\<close>

fun nesting :: "int option \<Rightarrow> nat \<Rightarrow> int \<Rightarrow> call \<Rightarrow> entry list"
  and nesting_body :: "int option \<Rightarrow> nat \<Rightarrow> int \<Rightarrow> call list \<Rightarrow> entry list"
where
  "nesting par d n (Call name is_async conf dur out body) =
     nesting_body (Some (n + 1)) (Suc d) (n + 1) body @
     (if recorded (Call name is_async conf dur out body)
      then [record_of (Call name is_async conf dur out body) d par (n + 1)] else [])"
| "nesting_body par d n [] = []"
| "nesting_body par d n (c # cs) =
     nesting par d n c @ nesting_body par d (n + int (ncalls c)) cs"

text \<open>
  The state in which a wrapper leaves its bookkeeping (push, call, pop, append), before it
  decides about the flush.
\<close>

definition stack_top :: "ctx \<Rightarrow> int option" where
  "stack_top s = (if call_stack s \<noteq> [] then Some (snd (last (call_stack s))) else None)"

definition at_exit :: "call \<Rightarrow> ctx \<Rightarrow> ctx" where
  "at_exit c s =
     s\<lparr>call_id_counter := call_id_counter s + int (ncalls c),
       tracking := tracking s @
         nesting (stack_top s) (length (call_stack s)) (call_id_counter s) c\<rparr>"

text \<open>
  A children mapping whose lists are non-empty and hold call ids above their key and at
  most \<open>M\<close>.
\<close>

definition tree_bounded :: "int \<Rightarrow> tree \<Rightarrow> bool" where
  "tree_bounded M T \<longleftrightarrow>
     (\<forall>k cs. T k = Some cs \<longrightarrow> cs \<noteq> [] \<and> (\<forall>e\<in>set cs. k < call_id e \<and> call_id e \<le> M))"


text \<open>
  The invariant of a context: call ids are positive and at most the counter, every record
  has a larger id than its parent, and the frames on the stack carry ids handed out already.
\<close>

definition ids_ok :: "int \<Rightarrow> entry list \<Rightarrow> bool" where
  "ids_ok n trk \<longleftrightarrow>
     (\<forall>e\<in>set trk. 0 < call_id e \<and> call_id e \<le> n \<and>
        (\<forall>p. parent_id e = Some p \<longrightarrow> p < call_id e))"

definition ctx_ok :: "ctx \<Rightarrow> bool" where
  "ctx_ok s \<longleftrightarrow>
     0 \<le> call_id_counter s \<and> ids_ok (call_id_counter s) (tracking s) \<and>
     (\<forall>f\<in>set (call_stack s). snd f \<le> call_id_counter s)"

section \<open>Edges of the rebuilt tree and of the dynamic nesting\<close>

text \<open>
  The parent/child edges of the tree that \<^verbatim>\<open>_build_call_tree\<close> makes of a tracking list:
  a record \<open>a\<close> of the list, and a record \<open>b\<close> in the children list stored under the
  call id of \<open>a\<close>.
\<close>

definition tree_edges :: "entry list \<Rightarrow> (int \<times> int) set" where
  "tree_edges trk =
     {(call_id a, call_id b) | a b cs.
        a \<in> set trk \<and> snd (build_call_tree trk) (call_id a) = Some cs \<and> b \<in> set cs}"

text \<open>The same edges, read off the parent ids.\<close>

definition rel_edges :: "entry list \<Rightarrow> (int \<times> int) set" where
  "rel_edges trk =
     {(call_id a, call_id b) | a b. a \<in> set trk \<and> b \<in> set trk \<and> parent_id b = Some (call_id a)}"

text \<open>
  The dynamic call nesting restricted to the calls that satisfy \<open>P\<close>: an edge joins the id
  of a call to the id of a call made directly from it, when both satisfy \<open>P\<close>. The
  restriction in the specification is \<open>meets_threshold\<close>.
\<close>

definition meets_threshold :: "call \<Rightarrow> bool" where
  "meets_threshold c \<longleftrightarrow> minimum_duration (cconf c) \<le> cdur c"

fun child_ids :: "(call \<Rightarrow> bool) \<Rightarrow> int \<Rightarrow> call list \<Rightarrow> int set" where
  "child_ids P n [] = {}"
| "child_ids P n (c # cs) = (if P c then {n + 1} else {}) \<union> child_ids P (n + int (ncalls c)) cs"

fun dyn_edges :: "(call \<Rightarrow> bool) \<Rightarrow> int \<Rightarrow> call \<Rightarrow> (int \<times> int) set"
  and dyn_edges_body :: "(call \<Rightarrow> bool) \<Rightarrow> int \<Rightarrow> call list \<Rightarrow> (int \<times> int) set"
where
  "dyn_edges P n (Call name is_async conf dur out body) =
     (if P (Call name is_async conf dur out body) then {n + 1} \<times> child_ids P (n + 1) body else {})
     \<union> dyn_edges_body P (n + 1) body"
| "dyn_edges_body P n [] = {}"
| "dyn_edges_body P n (c # cs) = dyn_edges P n c \<union> dyn_edges_body P (n + int (ncalls c)) cs"

section \<open>Example inputs\<close>

definition ex_entry :: "string \<Rightarrow> rat \<Rightarrow> int option \<Rightarrow> int \<Rightarrow> entry" where
  "ex_entry name dur par cid =
     \<lparr>func_name = name, duration = dur, func_type = ''sync'', depth = 0,
      parent_id = par, call_id = cid\<rparr>"

definition ex_conf :: config where
  "ex_conf = \<lparr>log_path = ''function_times.log'', minimum_duration = 1 / 20, top_k = Full\<rparr>"

text \<open>What a test can see of a run: outcome, stack, counter, tracking list and one file.\<close>

definition observe ::
  "string \<Rightarrow> (outcome \<times> ctx) option \<Rightarrow>
     (outcome \<times> (string \<times> int) list \<times> int \<times> entry list \<times> string) option" where
  "observe p res =
     map_option (\<lambda>(r, s). (r, call_stack s, call_id_counter s, tracking s, files s p)) res"

definition ex_leaf :: call where
  "ex_leaf = Call ''leaf'' False ex_conf (1 / 100) Returned []"
definition ex_inner :: call where
  "ex_inner = Call ''inner'' False ex_conf (3 / 50) Returned [ex_leaf]"
definition ex_outer :: call where
  "ex_outer = Call ''outer'' False ex_conf (1 / 10) Returned [ex_inner]"
definition ex_caught :: call where
  "ex_caught = Call ''outer'' False ex_conf (1 / 10) Returned
     [Call ''inner'' False ex_conf (3 / 50) (Raised ''ValueError'') []]"

definition ex_fast_outer :: call where
  "ex_fast_outer = Call ''outer'' False ex_conf (1 / 100) Returned
     [Call ''inner'' False ex_conf (3 / 50) Returned []]"
definition ex_raising :: call where
  "ex_raising = Call ''boom'' False ex_conf (1 / 10) (Raised ''ValueError'') []"

definition ex_conf_neg :: config where
  "ex_conf_neg = \<lparr>log_path = ''function_times.log'', minimum_duration = 1 / 20,
                  top_k = TopK (- 1)\<rparr>"

definition ex_outer_neg :: call where
  "ex_outer_neg = Call ''outer'' False ex_conf_neg (1 / 10) Returned
     [Call ''inner'' False ex_conf_neg (3 / 50) Returned []]"

section \<open>Properties of the tree builder\<close>

lemma build_loop_eq:
  "build_loop trk (r, t) =
     (r @ filter (\<lambda>e. parent_id e = None) trk,
      \<lambda>p. if filter (\<lambda>e. parent_id e = Some p) trk = [] then t p
           else Some ((case t p of None \<Rightarrow> [] | Some cs \<Rightarrow> cs) @
                      filter (\<lambda>e. parent_id e = Some p) trk))"
proof (induction trk arbitrary: r t)
  case Nil
  then show ?case by simp
next
  case (Cons e es)
  show ?case
  proof (cases "parent_id e")
    case None
    then show ?thesis by (auto simp: Cons.IH fun_eq_iff)
  next
    case (Some q)
    then show ?thesis by (auto simp: Cons.IH fun_eq_iff)
  qed
qed

lemma build_call_tree_eq:
  "build_call_tree trk =
     (filter (\<lambda>e. parent_id e = None) trk,
      \<lambda>p. if filter (\<lambda>e. parent_id e = Some p) trk = [] then None
           else Some (sort_key call_id (filter (\<lambda>e. parent_id e = Some p) trk)))"
  by (simp add: build_call_tree_def build_loop_eq fun_eq_iff)

lemma build_sorted_eq:
  "build_sorted trk =
     (sort_key call_id (filter (\<lambda>e. parent_id e = None) trk),
      \<lambda>p. if filter (\<lambda>e. parent_id e = Some p) trk = [] then None
           else Some (sort_key call_id (filter (\<lambda>e. parent_id e = Some p) trk)))"
  by (simp add: build_sorted_def build_call_tree_eq)


section \<open>Properties of the wrappers\<close>

lemma run_nested:
  "call_stack s \<noteq> [] \<Longrightarrow>
     run_call fuel c s =
       Some (cout c, s\<lparr>call_id_counter := call_id_counter s + int (ncalls c),
                       tracking := tracking s @
                         nesting (Some (snd (last (call_stack s)))) (length (call_stack s))
                           (call_id_counter s) c\<rparr>)"
  "call_stack s \<noteq> [] \<Longrightarrow>
     run_body fuel cs s =
       Some (s\<lparr>call_id_counter := call_id_counter s + int (ncalls_body cs),
               tracking := tracking s @
                 nesting_body (Some (snd (last (call_stack s)))) (length (call_stack s))
                   (call_id_counter s) cs\<rparr>)"
proof (induction fuel c s and fuel cs s rule: run_call_run_body.induct)
  case (1 fuel name is_async conf dur out body s)
  let ?s2 = "s\<lparr>call_id_counter := call_id_counter s + 1,
               call_stack := call_stack s @ [(name, call_id_counter s + 1)]\<rparr>"
  have ne: "call_stack ?s2 \<noteq> []" by simp
  have body: "run_body fuel body ?s2 =
       Some (?s2\<lparr>call_id_counter := call_id_counter ?s2 + int (ncalls_body body),
               tracking := tracking ?s2 @
                 nesting_body (Some (snd (last (call_stack ?s2)))) (length (call_stack ?s2))
                   (call_id_counter ?s2) body\<rparr>)"
    using "1.IH"[OF refl refl refl refl refl] by simp
  show ?case using "1.prems"
    by (cases out) (simp_all add: Let_def body recorded_def record_of_def)
next
  case (2 fuel s)
  then show ?case by simp
next
  case (3 fuel c cs s)
  show ?case using "3.prems" "3.IH"(1)[OF "3.prems"]
    apply simp
    apply (subst "3.IH"(2))
    apply (auto simp: add.assoc)
    done
qed


lemma run_call_eq:
  "run_call fuel c s =
     (if call_stack s = [] \<and> recorded c
      then map_option (Pair Returned)
             (log_top_functions fuel (log_path (cconf c)) (top_k (cconf c)) (at_exit c s))
      else Some (cout c, at_exit c s))"
proof (cases "call_stack s = []")
  case False
  then show ?thesis by (simp add: run_nested(1) at_exit_def stack_top_def)
next
  case True
  obtain name is_async conf dur out body where c: "c = Call name is_async conf dur out body"
    by (cases c)
  let ?s2 = "s\<lparr>call_id_counter := call_id_counter s + 1,
               call_stack := [(name, call_id_counter s + 1)]\<rparr>"
  have body: "run_body fuel body ?s2 =
       Some (?s2\<lparr>call_id_counter := call_id_counter ?s2 + int (ncalls_body body),
               tracking := tracking ?s2 @
                 nesting_body (Some (snd (last (call_stack ?s2)))) (length (call_stack ?s2))
                   (call_id_counter ?s2) body\<rparr>)"
    by (rule run_nested(2)) simp
  have drop_upd: "\<And>a t. s\<lparr>call_id_counter := a, call_stack := [], tracking := t\<rparr> =
      s\<lparr>call_id_counter := a, tracking := t\<rparr>"
    using True by (cases s) simp
  show ?thesis using True
    by (cases out)
      (simp_all add: c Let_def body recorded_def record_of_def at_exit_def stack_top_def
        drop_upd add.assoc)
qed

lemma log_top_functions_result:
  assumes "log_top_functions fuel p k s = Some s'"
  shows "tracking s' = []" and "call_id_counter s' = call_id_counter s"
    and "call_stack s = [] \<Longrightarrow> call_stack s' = []"
    and "q \<noteq> p \<Longrightarrow> files s' q = files s q"
  using assms
  by (auto simp: log_top_functions_def split: if_splits option.splits prod.splits)



section \<open>Termination of the traversals\<close>

lemma tree_bounded_child:
  "tree_bounded M T \<Longrightarrow> T (call_id e) = Some cs \<Longrightarrow> nat (M - call_id e) < Suc fuel \<Longrightarrow>
     0 < fuel \<and> (\<forall>c\<in>set cs. nat (M - call_id c) < fuel)"
proof -
  assume tb: "tree_bounded M T" and cs: "T (call_id e) = Some cs"
    and m: "nat (M - call_id e) < Suc fuel"
  have all: "\<forall>c\<in>set cs. call_id e < call_id c \<and> call_id c \<le> M" and ne: "cs \<noteq> []"
    using tb cs unfolding tree_bounded_def by blast+
  then have small: "\<forall>c\<in>set cs. nat (M - call_id c) < fuel" using m by auto
  obtain c where "c \<in> set cs" using ne by (cases cs) auto
  then have "nat (M - call_id c) < fuel" using small by blast
  then show ?thesis using small by auto
qed

lemma tree_bounded_upd:
  "tree_bounded M T \<Longrightarrow> T k = Some cs \<Longrightarrow> set cs' \<subseteq> set cs \<Longrightarrow> cs' \<noteq> [] \<Longrightarrow>
     tree_bounded M (T(k \<mapsto> cs'))"
  unfolding tree_bounded_def by auto

lemma format_children_terminates:
  assumes "\<And>c ind pre. c \<in> set cs \<Longrightarrow> format_tree_node fuel c T ind pre \<noteq> None"
  shows "format_children fuel T ind n i cs \<noteq> None"
  using assms
proof (induction cs arbitrary: i)
  case Nil
  then show ?case by simp
next
  case (Cons c cs)
  obtain ls where "format_tree_node fuel c T (ind + 1)
      (if int i = int n - 1 then last_prefix else mid_prefix) = Some ls"
    using Cons.prems[of c] by fastforce
  moreover obtain ls' where "format_children fuel T ind n (i + 1) cs = Some ls'"
    using Cons.IH[of "i + 1"] Cons.prems by fastforce
  ultimately show ?case by (simp add: Let_def)
qed

lemma format_terminates:
  "tree_bounded M T \<Longrightarrow> nat (M - call_id e) < fuel \<Longrightarrow>
     format_tree_node fuel e T ind pre \<noteq> None"
proof (induction fuel arbitrary: e ind pre)
  case 0
  then show ?case by simp
next
  case (Suc fuel)
  show ?case
  proof (cases "T (call_id e)")
    case None
    then show ?thesis by simp
  next
    case (Some cs)
    have "\<forall>c\<in>set cs. nat (M - call_id c) < fuel"
      using tree_bounded_child[OF Suc.prems(1) Some Suc.prems(2)] by blast
    then have "format_children fuel T ind (length cs) 0 cs \<noteq> None"
      using Suc.IH[OF Suc.prems(1)] by (intro format_children_terminates) blast
    then show ?thesis using Some by simp
  qed
qed

lemma format_roots_terminates:
  "tree_bounded M T \<Longrightarrow> (\<forall>c\<in>set rs. nat (M - call_id c) < fuel) \<Longrightarrow>
     format_roots fuel T rs \<noteq> None"
  by (induction rs) (auto simp: format_terminates split: option.splits)

lemma collect_terminates:
  "tree_bounded M T \<Longrightarrow> 0 < fuel \<Longrightarrow> (\<forall>c\<in>set es. nat (M - call_id c) < fuel) \<Longrightarrow>
     collect_nodes fuel T es \<noteq> None"
proof (induction fuel arbitrary: es)
  case 0
  then show ?case by simp
next
  case (Suc fuel)
  from Suc.prems(3) show ?case
  proof (induction es)
    case Nil
    then show ?case by simp
  next
    case (Cons e es)
    then have rest: "collect_nodes (Suc fuel) T es \<noteq> None" by simp
    show ?case
    proof (cases "T (call_id e)")
      case None
      then show ?thesis using rest by auto
    next
      case (Some cs)
      have "0 < fuel \<and> (\<forall>c\<in>set cs. nat (M - call_id c) < fuel)"
        using tree_bounded_child[OF Suc.prems(1) Some] Cons.prems by simp
      then have "collect_nodes fuel T cs \<noteq> None"
        using Suc.IH[OF Suc.prems(1)] by blast
      then show ?thesis using rest Some by auto
    qed
  qed
qed

lemma filter_terminates:
  "tree_bounded M T \<Longrightarrow> 0 < fuel \<Longrightarrow> (\<forall>c\<in>set es. nat (M - call_id c) < fuel) \<Longrightarrow>
     \<exists>fl T'. filter_tree fuel keep T es = Some (fl, T') \<and> set fl \<subseteq> set es \<and>
       tree_bounded M T'"
proof (induction fuel arbitrary: es T)
  case 0
  then show ?case by simp
next
  case (Suc fuel)
  from Suc.prems(1,3) show ?case
  proof (induction es arbitrary: T)
    case Nil
    then show ?case by simp
  next
    case (Cons e es)
    have small: "\<forall>c\<in>set es. nat (M - call_id c) < Suc fuel" using Cons.prems by simp
    show ?case
    proof (cases "T (call_id e)")
      case None
      obtain fl T' where r: "filter_tree (Suc fuel) keep T es = Some (fl, T')"
        "set fl \<subseteq> set es" "tree_bounded M T'"
        using Cons.IH[OF Cons.prems(1) small] by blast
      then show ?thesis using None by auto
    next
      case (Some cs)
      have "0 < fuel \<and> (\<forall>c\<in>set cs. nat (M - call_id c) < fuel)"
        using tree_bounded_child[OF Cons.prems(1) Some] Cons.prems(2) by simp
      then obtain ch T1 where c1: "filter_tree fuel keep T cs = Some (ch, T1)"
        "set ch \<subseteq> set cs" "tree_bounded M T1"
        using Suc.IH[OF Cons.prems(1)] by blast
      have cs_ok: "\<forall>c\<in>set cs. call_id e < call_id c \<and> call_id c \<le> M"
        using Cons.prems(1) Some unfolding tree_bounded_def by blast
      have T2: "ch \<noteq> [] \<Longrightarrow> tree_bounded M (T1(call_id e \<mapsto> ch))"
        using c1(2,3) cs_ok unfolding tree_bounded_def by auto
      show ?thesis
      proof (cases "ch = []")
        case True
        obtain fl T' where r: "filter_tree (Suc fuel) keep T1 es = Some (fl, T')"
          "set fl \<subseteq> set es" "tree_bounded M T'"
          using Cons.IH[OF c1(3) small] by blast
        then show ?thesis using Some c1(1) True by auto
      next
        case False
        obtain fl T' where r: "filter_tree (Suc fuel) keep (T1(call_id e \<mapsto> ch)) es = Some (fl, T')"
          "set fl \<subseteq> set es" "tree_bounded M T'"
          using Cons.IH[OF T2[OF False] small] by blast
        then show ?thesis using Some c1(1) False by auto
      qed
    qed
  qed
qed

section \<open>Call ids and the invariant of a context\<close>

lemma nesting_ids:
  "(\<forall>q. par = Some q \<longrightarrow> q \<le> n) \<Longrightarrow> e \<in> set (nesting par d n c) \<Longrightarrow>
     n < call_id e \<and> call_id e \<le> n + int (ncalls c) \<and>
     (\<forall>p. parent_id e = Some p \<longrightarrow> p < call_id e)"
  "(\<forall>q. par = Some q \<longrightarrow> q \<le> n) \<Longrightarrow> e \<in> set (nesting_body par d n cs) \<Longrightarrow>
     n < call_id e \<and> call_id e \<le> n + int (ncalls_body cs) \<and>
     (\<forall>p. parent_id e = Some p \<longrightarrow> p < call_id e)"
proof (induction par d n c and par d n cs arbitrary: e and e rule: nesting_nesting_body.induct)
  case (1 par d n name is_async conf dur out body)
  show ?case
  proof (cases "e \<in> set (nesting_body (Some (n + 1)) (Suc d) (n + 1) body)")
    case True
    then show ?thesis using "1.IH"[of e] by auto
  next
    case False
    then have "e = record_of (Call name is_async conf dur out body) d par (n + 1)"
      using "1.prems"(2) by (auto split: if_splits)
    then show ?thesis using "1.prems"(1) by (auto simp: record_of_def)
  qed
next
  case (2 par d n)
  then show ?case by simp
next
  case (3 par d n c cs)
  have nc: "0 < ncalls c" by (cases c) simp
  show ?case
  proof (cases "e \<in> set (nesting par d n c)")
    case True
    then show ?thesis using "3.IH"(1)[OF "3.prems"(1) True] by auto
  next
    case False
    then have "e \<in> set (nesting_body par d (n + int (ncalls c)) cs)"
      using "3.prems"(2) by simp
    moreover have "\<forall>q. par = Some q \<longrightarrow> q \<le> n + int (ncalls c)"
      using "3.prems"(1) by auto
    ultimately show ?thesis using "3.IH"(2)[of e] by auto
  qed
qed

lemma stack_top_le: "ctx_ok s \<Longrightarrow> stack_top s = Some q \<Longrightarrow> q \<le> call_id_counter s"
  by (auto simp: ctx_ok_def stack_top_def split: if_splits)

lemma ctx_ok_at_exit: "ctx_ok s \<Longrightarrow> ctx_ok (at_exit c s)"
proof -
  assume ok: "ctx_ok s"
  have par: "\<forall>q. stack_top s = Some q \<longrightarrow> q \<le> call_id_counter s"
    using stack_top_le[OF ok] by blast
  have new: "\<forall>e\<in>set (nesting (stack_top s) (length (call_stack s)) (call_id_counter s) c).
      0 < call_id e \<and> call_id e \<le> call_id_counter s + int (ncalls c) \<and>
      (\<forall>p. parent_id e = Some p \<longrightarrow> p < call_id e)"
    using nesting_ids(1)[OF par] ok by (fastforce simp: ctx_ok_def)
  show ?thesis using ok new
    by (fastforce simp: ctx_ok_def ids_ok_def at_exit_def)
qed

lemma sort_key_Nil_iff: "sort_key f xs = [] \<longleftrightarrow> xs = []"
  by (metis length_sort length_0_conv)

lemma build_sorted_bounded:
  "ids_ok n trk \<Longrightarrow> tree_bounded n (snd (build_sorted trk))"
  unfolding tree_bounded_def ids_ok_def build_sorted_eq
  by (auto simp: sort_key_Nil_iff split: if_splits)

lemma build_sorted_roots:
  "set (fst (build_sorted trk)) \<subseteq> set trk"
  by (auto simp: build_sorted_eq)

lemma apply_top_k_terminates:
  assumes "tree_bounded M T" "0 < fuel" "\<forall>c\<in>set rs. nat (M - call_id c) < fuel"
  shows "\<exists>fl T'. apply_top_k fuel k (rs, T) = Some (fl, T') \<and> set fl \<subseteq> set rs \<and>
           tree_bounded M T'"
proof (cases k)
  case (TopK j)
  obtain ns where ns: "collect_nodes fuel T rs = Some ns"
    using collect_terminates[OF assms] by blast
  show ?thesis
    using filter_terminates[OF assms, of "top_call_ids_of j ns"] TopK ns
    by (simp add: apply_top_k_def)
qed (use assms in \<open>simp_all add: apply_top_k_def\<close>)

lemma flush_terminates:
  assumes "ids_ok (call_id_counter s) (tracking s)" "nat (call_id_counter s) < fuel"
  shows "\<exists>s'. log_top_functions fuel p k s = Some s'"
proof -
  let ?n = "call_id_counter s"
  obtain rs T where b: "build_sorted (tracking s) = (rs, T)" by (cases "build_sorted (tracking s)")
  have tb: "tree_bounded ?n T" using build_sorted_bounded[OF assms(1)] b by simp
  have rs: "set rs \<subseteq> set (tracking s)" using build_sorted_roots[of "tracking s"] b by simp
  have small: "\<forall>c\<in>set rs. nat (?n - call_id c) < fuel"
    using rs assms unfolding ids_ok_def by fastforce
  have pos: "0 < fuel" using assms(2) by simp
  obtain fl T' where a: "apply_top_k fuel k (rs, T) = Some (fl, T')" "set fl \<subseteq> set rs"
      "tree_bounded ?n T'"
    using apply_top_k_terminates[OF tb pos small] by blast
  have "format_roots fuel T' fl \<noteq> None"
    using format_roots_terminates[OF a(3)] small a(2) by blast
  then show ?thesis using a(1) b by (auto simp: log_top_functions_def)
qed

lemma ctx_ok_flush:
  "ctx_ok s \<Longrightarrow> call_stack s = [] \<Longrightarrow> log_top_functions fuel p k s = Some s' \<Longrightarrow> ctx_ok s'"
  using log_top_functions_result[of fuel p k s s']
  by (simp add: ctx_ok_def ids_ok_def)

lemma run_call_terminates:
  assumes "ctx_ok s" "nat (call_id_counter s) + ncalls c < fuel"
  shows "\<exists>s'. run_call fuel c s = Some (cout c, s') \<and> ctx_ok s'"
proof (cases "call_stack s = [] \<and> recorded c")
  case True
  have ok: "ctx_ok (at_exit c s)" by (rule ctx_ok_at_exit[OF assms(1)])
  have "nat (call_id_counter (at_exit c s)) < fuel"
    using assms by (simp add: at_exit_def ctx_ok_def nat_add_distrib)
  then obtain s' where s': "log_top_functions fuel (log_path (cconf c)) (top_k (cconf c))
      (at_exit c s) = Some s'"
    using flush_terminates ok unfolding ctx_ok_def by blast
  have "ctx_ok s'" using ctx_ok_flush[OF ok _ s'] True by (simp add: at_exit_def)
  then show ?thesis using True s' by (simp add: run_call_eq recorded_def)
next
  case False
  then show ?thesis using ctx_ok_at_exit[OF assms(1), of c] by (auto simp: run_call_eq)
qed

section \<open>Order of roots and children\<close>

text \<open>
  C8. After tree building and before filtering, the root list and every children list are
  sorted by ascending call id; the root list holds exactly the entries without a parent id
  and the list under \<open>p\<close> exactly the entries whose parent id is \<open>p\<close>.
\<close>

theorem children_and_roots_sorted_by_call_id:
  "sorted (map call_id (fst (build_sorted trk))) \<and>
   mset (fst (build_sorted trk)) = mset (filter (\<lambda>e. parent_id e = None) trk) \<and>
   (\<forall>p cs. snd (build_sorted trk) p = Some cs \<longrightarrow>
      sorted (map call_id cs) \<and> mset cs = mset (filter (\<lambda>e. parent_id e = Some p) trk))"
  by (auto simp: build_sorted_eq split: if_splits)

theorem children_and_roots_sorted_by_call_id_witness:
  "snd (build_sorted [ex_entry ''c'' 1 (Some 1) 3, ex_entry ''b'' 2 (Some 1) 2,
                      ex_entry ''a'' 3 None 1]) 1
     = Some [ex_entry ''b'' 2 (Some 1) 2, ex_entry ''c'' 1 (Some 1) 3] \<and>
   sorted (map call_id [ex_entry ''b'' 2 (Some 1) 2, ex_entry ''c'' 1 (Some 1) 3])"
proof -
  have h: "snd (build_sorted [ex_entry ''c'' 1 (Some 1) 3, ex_entry ''b'' 2 (Some 1) 2,
                      ex_entry ''a'' 3 None 1]) 1
     = Some [ex_entry ''b'' 2 (Some 1) 2, ex_entry ''c'' 1 (Some 1) 3]"
    by (simp add: build_sorted_eq ex_entry_def)
  show ?thesis
    using h children_and_roots_sorted_by_call_id
      [of "[ex_entry ''c'' 1 (Some 1) 3, ex_entry ''b'' 2 (Some 1) 2, ex_entry ''a'' 3 None 1]"]
    by blast
qed

section \<open>The stack is restored\<close>

text \<open>
  C6. Whenever a wrapper finishes, by a normal return or by an error raised in the wrapped
  function (a cancellation is raised at the await), the call stack is what it was before
  entry, and the wrapper hands on the outcome of the wrapped function: the pop in the
  \<^verbatim>\<open>finally\<close> block never fails.
\<close>

theorem frame_popped_on_every_exit:
  "run_call fuel c s = Some (r, s') \<Longrightarrow> call_stack s' = call_stack s \<and> r = cout c"
proof -
  assume run: "run_call fuel c s = Some (r, s')"
  show ?thesis
  proof (cases "call_stack s = [] \<and> recorded c")
    case True
    then obtain t where t: "log_top_functions fuel (log_path (cconf c)) (top_k (cconf c))
        (at_exit c s) = Some t" and r: "r = Returned" and s': "s' = t"
      using run by (auto simp: run_call_eq)
    have "call_stack (at_exit c s) = []" using True by (simp add: at_exit_def)
    then have "call_stack t = []" by (rule log_top_functions_result(3)[OF t])
    then show ?thesis using True r s' by (simp add: recorded_def)
  next
    case False
    then have "r = cout c" "s' = at_exit c s" using run by (auto simp: run_call_eq split: if_splits)
    then show ?thesis by (simp add: at_exit_def)
  qed
qed

theorem frame_popped_on_every_exit_witness:
  "run_call 1 (Call ''boom'' True ex_conf (1 / 10) (Raised ''CancelledError'') []) init_ctx
     = Some (Raised ''CancelledError'', init_ctx\<lparr>call_id_counter := 1\<rparr>) \<and>
   call_stack (init_ctx\<lparr>call_id_counter := 1\<rparr>) = call_stack init_ctx"
proof -
  have h: "run_call 1 (Call ''boom'' True ex_conf (1 / 10) (Raised ''CancelledError'') []) init_ctx
     = Some (Raised ''CancelledError'', init_ctx\<lparr>call_id_counter := 1\<rparr>)"
    by (simp add: init_ctx_def)
  show ?thesis using h frame_popped_on_every_exit[OF h] by simp
qed

section \<open>Attribution of parents and depths\<close>

lemma ctx_ok_init: "ctx_ok init_ctx"
  by (simp add: ctx_ok_def ids_ok_def init_ctx_def)

lemma tree_edges_eq: "tree_edges trk = rel_edges trk"
  unfolding tree_edges_def rel_edges_def build_call_tree_eq
  by (auto split: if_splits) (metis (mono_tags, lifting) empty_filter_conv)

lemma rel_edges_append:
  assumes "\<And>a b. a \<in> set xs \<Longrightarrow> b \<in> set ys \<Longrightarrow> parent_id b \<noteq> Some (call_id a)"
    and "\<And>a b. a \<in> set ys \<Longrightarrow> b \<in> set xs \<Longrightarrow> parent_id b \<noteq> Some (call_id a)"
  shows "rel_edges (xs @ ys) = rel_edges xs \<union> rel_edges ys"
  using assms unfolding rel_edges_def by auto

lemma nesting_parents:
  "e \<in> set (nesting par d n c) \<Longrightarrow>
     parent_id e = par \<or> (\<exists>q. parent_id e = Some q \<and> n < q)"
  "e \<in> set (nesting_body par d n cs) \<Longrightarrow>
     parent_id e = par \<or> (\<exists>q. parent_id e = Some q \<and> n < q)"
proof (induction par d n c and par d n cs arbitrary: e and e rule: nesting_nesting_body.induct)
  case (1 par d n name is_async conf dur out body)
  show ?case
  proof (cases "e \<in> set (nesting_body (Some (n + 1)) (Suc d) (n + 1) body)")
    case True
    then show ?thesis using "1.IH"[OF True] by auto
  next
    case False
    then have "e = record_of (Call name is_async conf dur out body) d par (n + 1)"
      using "1.prems" by (auto split: if_splits)
    then show ?thesis by (simp add: record_of_def)
  qed
next
  case (2 par d n)
  then show ?case by simp
next
  case (3 par d n c cs)
  show ?case
  proof (cases "e \<in> set (nesting par d n c)")
    case True
    then show ?thesis using "3.IH"(1)[OF True] by auto
  next
    case False
    then have "e \<in> set (nesting_body par d (n + int (ncalls c)) cs)"
      using "3.prems" by simp
    then show ?thesis using "3.IH"(2)[of e] by auto
  qed
qed

lemma direct_child:
  assumes "i \<le> n"
  shows "call_id ` {e \<in> set (nesting (Some i) d n c). parent_id e = Some i} =
       (if recorded c then {n + 1} else {})"
proof -
  obtain name is_async conf dur out body where c: "c = Call name is_async conf dur out body"
    by (cases c)
  have deep: "\<forall>e\<in>set (nesting_body (Some (n + 1)) (Suc d) (n + 1) body). parent_id e \<noteq> Some i"
    using nesting_parents(2)[of _ "Some (n + 1)" "Suc d" "n + 1" body] assms by fastforce
  have split: "{e \<in> set (nesting (Some i) d n c). parent_id e = Some i} =
      (if recorded c then {record_of c d (Some i) (n + 1)} else {})"
    using deep by (auto simp: c record_of_def)
  show ?thesis unfolding split by (simp add: record_of_def)
qed

lemma direct_children:
  "i \<le> n \<Longrightarrow>
     call_id ` {e \<in> set (nesting_body (Some i) d n cs). parent_id e = Some i} =
       child_ids recorded n cs"
proof (induction cs arbitrary: n)
  case Nil
  then show ?case by simp
next
  case (Cons c cs)
  have le2: "i \<le> n + int (ncalls c)" using Cons.prems by simp
  have "{e \<in> set (nesting_body (Some i) d n (c # cs)). parent_id e = Some i} =
      {e \<in> set (nesting (Some i) d n c). parent_id e = Some i} \<union>
      {e \<in> set (nesting_body (Some i) d (n + int (ncalls c)) cs). parent_id e = Some i}"
    by auto
  then show ?case using direct_child[OF Cons.prems, of d c] Cons.IH[OF le2]
    by (simp add: image_Un)
qed

lemma nesting_edges:
  "(\<forall>q. par = Some q \<longrightarrow> q \<le> n) \<Longrightarrow> rel_edges (nesting par d n c) = dyn_edges recorded n c"
  "(\<forall>q. par = Some q \<longrightarrow> q \<le> n) \<Longrightarrow>
     rel_edges (nesting_body par d n cs) = dyn_edges_body recorded n cs"
proof (induction par d n c and par d n cs rule: nesting_nesting_body.induct)
  case (1 par d n name is_async conf dur out body)
  let ?c = "Call name is_async conf dur out body"
  let ?B = "nesting_body (Some (n + 1)) (Suc d) (n + 1) body"
  have B: "rel_edges ?B = dyn_edges_body recorded (n + 1) body"
    using "1.IH" by simp
  have idsB: "\<forall>e\<in>set ?B. n + 1 < call_id e"
    using nesting_ids(2)[of "Some (n + 1)" "n + 1" _ "Suc d" body] by simp
  show ?case
  proof (cases "recorded ?c")
    case False
    then show ?thesis using B by simp
  next
    case True
    let ?r = "record_of ?c d par (n + 1)"
    have "rel_edges (?B @ [?r]) =
        rel_edges ?B \<union> {n + 1} \<times> call_id ` {e \<in> set ?B. parent_id e = Some (n + 1)}"
      using idsB "1.prems" unfolding rel_edges_def
      by (auto simp: record_of_def) force+
    then show ?thesis using True B direct_children[of "n + 1" "n + 1" "Suc d" body]
      by (simp add: Un_commute)
  qed
next
  case (2 par d n)
  then show ?case by (simp add: rel_edges_def)
next
  case (3 par d n c cs)
  have par2: "\<forall>q. par = Some q \<longrightarrow> q \<le> n + int (ncalls c)" using "3.prems" by auto
  let ?X = "nesting par d n c" and ?Y = "nesting_body par d (n + int (ncalls c)) cs"
  have idsX: "\<And>a. a \<in> set ?X \<Longrightarrow> n < call_id a \<and> call_id a \<le> n + int (ncalls c)"
    using nesting_ids(1)[OF "3.prems"] by blast
  have idsY: "\<And>a. a \<in> set ?Y \<Longrightarrow> n + int (ncalls c) < call_id a"
    using nesting_ids(2)[OF par2] by blast
  have parX: "\<And>b. b \<in> set ?X \<Longrightarrow> parent_id b = par \<or> (\<exists>q. parent_id b = Some q \<and> q < call_id b)"
    using nesting_ids(1)[OF "3.prems"] nesting_parents(1) by (metis option.exhaust)
  have parY: "\<And>b. b \<in> set ?Y \<Longrightarrow>
      parent_id b = par \<or> (\<exists>q. parent_id b = Some q \<and> n + int (ncalls c) < q)"
    using nesting_parents(2) by blast
  have "rel_edges (?X @ ?Y) = rel_edges ?X \<union> rel_edges ?Y"
  proof (rule rel_edges_append)
    fix a b assume a: "a \<in> set ?X" and b: "b \<in> set ?Y"
    show "parent_id b \<noteq> Some (call_id a)"
      using parY[OF b] idsX[OF a] "3.prems" by auto
  next
    fix a b assume a: "a \<in> set ?Y" and b: "b \<in> set ?X"
    show "parent_id b \<noteq> Some (call_id a)"
      using parX[OF b] idsX[OF b] idsY[OF a] "3.prems" by auto
  qed
  then show ?case using "3.IH"(1)[OF "3.prems"] "3.IH"(2)[OF par2] by simp
qed


lemma tree_edges_at_exit:
  assumes "ctx_ok s" "call_stack s = []"
  shows "tree_edges (tracking (at_exit c s)) =
           tree_edges (tracking s) \<union> dyn_edges recorded (call_id_counter s) c"
proof -
  let ?n = "call_id_counter s"
  let ?N = "nesting None 0 ?n c"
  have t: "tracking (at_exit c s) = tracking s @ ?N"
    using assms(2) by (simp add: at_exit_def stack_top_def)
  have old: "\<And>a. a \<in> set (tracking s) \<Longrightarrow>
      call_id a \<le> ?n \<and> (\<forall>p. parent_id a = Some p \<longrightarrow> p < call_id a)"
    using assms(1) unfolding ctx_ok_def ids_ok_def by blast
  have new: "\<And>b. b \<in> set ?N \<Longrightarrow>
      ?n < call_id b \<and> (\<forall>p. parent_id b = Some p \<longrightarrow> ?n < p)"
    using nesting_ids(1)[of None ?n _ 0 c] nesting_parents(1)[of _ None 0 ?n c] by fastforce
  have "rel_edges (tracking s @ ?N) = rel_edges (tracking s) \<union> rel_edges ?N"
  proof (rule rel_edges_append)
    fix a b assume "a \<in> set (tracking s)" "b \<in> set ?N"
    then show "parent_id b \<noteq> Some (call_id a)" using old[of a] new[of b] by auto
  next
    fix a b assume "a \<in> set ?N" "b \<in> set (tracking s)"
    then show "parent_id b \<noteq> Some (call_id a)" using old[of b] new[of a] by fastforce
  qed
  then show ?thesis using nesting_edges(1)[of None ?n 0 c] by (simp add: t tree_edges_eq)
qed


text \<open>
  C5 (amended). A wrapper does its bookkeeping and then, when the stack is empty and the
  call left a record, flushes. A call that leaves a record gets depth = stack length at
  entry, parent id = call id of the top frame at entry (none when the stack was empty), and
  the next value of the counter as call id. At the exit of an outermost call, the edges of
  the tree rebuilt from the tracking list are the edges already in the list together with
  the dynamic nesting restricted to the calls that returned and met the threshold. A call
  that raises leaves no record and hence no edge, whatever its duration.
\<close>

theorem attribution_matches_dynamic_nesting:
  assumes "ctx_ok s"
  shows "run_call fuel c s =
           (if call_stack s = [] \<and> recorded c
            then map_option (Pair Returned)
                   (log_top_functions fuel (log_path (cconf c)) (top_k (cconf c)) (at_exit c s))
            else Some (cout c, at_exit c s)) \<and>
         (recorded c \<longrightarrow>
            tracking (at_exit c s) \<noteq> [] \<and>
            last (tracking (at_exit c s)) =
              \<lparr>func_name = cname c, duration = cdur c,
               func_type = (if casync c then ''async'' else ''sync''),
               depth = length (call_stack s),
               parent_id = (if call_stack s = [] then None
                            else Some (snd (last (call_stack s)))),
               call_id = call_id_counter s + 1\<rparr>) \<and>
         (call_stack s = [] \<longrightarrow>
            tree_edges (tracking (at_exit c s)) =
              tree_edges (tracking s) \<union> dyn_edges recorded (call_id_counter s) c)"
proof -
  obtain name is_async conf dur out body where c: "c = Call name is_async conf dur out body"
    by (cases c)
  have "recorded c \<Longrightarrow> tracking (at_exit c s) \<noteq> [] \<and>
      last (tracking (at_exit c s)) = record_of c (length (call_stack s)) (stack_top s)
        (call_id_counter s + 1)"
    by (simp add: at_exit_def c)
  then show ?thesis
    using tree_edges_at_exit[OF assms] by (auto simp: run_call_eq record_of_def stack_top_def)
qed

theorem attribution_matches_dynamic_nesting_witness:
  "ctx_ok init_ctx \<and> recorded ex_outer \<and> call_stack init_ctx = [] \<and>
   tree_edges (tracking (at_exit ex_outer init_ctx)) = {(1, 2)} \<and>
   last (tracking (at_exit ex_outer init_ctx)) =
     \<lparr>func_name = ''outer'', duration = 1 / 10, func_type = ''sync'', depth = 0,
      parent_id = None, call_id = 1\<rparr>"
proof -
  have a: "recorded ex_outer" "call_stack init_ctx = []" "tree_edges (tracking init_ctx) = {}"
    "dyn_edges recorded (call_id_counter init_ctx) ex_outer = {(1, 2)}"
    by (simp_all add: recorded_def ex_outer_def ex_inner_def ex_leaf_def ex_conf_def
        init_ctx_def tree_edges_def)
  show ?thesis
    using attribution_matches_dynamic_nesting[OF ctx_ok_init, of 5 ex_outer] a
    by (simp add: ctx_ok_init) (simp add: ex_outer_def init_ctx_def)
qed

theorem raising_call_missing_from_tree_counterexample:
  "meets_threshold (Call ''inner'' False ex_conf (3 / 50) (Raised ''ValueError'') []) \<and>
   (1, 2) \<in> dyn_edges meets_threshold (call_id_counter init_ctx) ex_caught \<and>
   (1, 2) \<notin> tree_edges (tracking (at_exit ex_caught init_ctx)) \<and>
   observe ''function_times.log'' (run_call 5 ex_caught init_ctx) =
     Some (Returned, [], 2, [],
           ''outer (sync) took 0.1000 seconds'' @ [CHR 0x0A] @ ''------'' @ [CHR 0x0A])"
proof -
  have 1: "meets_threshold (Call ''inner'' False ex_conf (3 / 50) (Raised ''ValueError'') [])"
    by (simp add: meets_threshold_def ex_conf_def)
  have 2: "(1, 2) \<in> dyn_edges meets_threshold (call_id_counter init_ctx) ex_caught"
    by (simp add: meets_threshold_def ex_conf_def ex_caught_def init_ctx_def)
  have 3: "(1, 2) \<notin> tree_edges (tracking (at_exit ex_caught init_ctx))"
    by (simp add: tree_edges_eq rel_edges_def at_exit_def ex_caught_def init_ctx_def
        stack_top_def recorded_def ex_conf_def record_of_def)
  have 4: "observe ''function_times.log'' (run_call 5 ex_caught init_ctx) =
     Some (Returned, [], 2, [],
           ''outer (sync) took 0.1000 seconds'' @ [CHR 0x0A] @ ''------'' @ [CHR 0x0A])"
    by code_simp
  show ?thesis using 1 2 3 4 by blast
qed

section \<open>A wrapped function that raises\<close>

text \<open>
  C2 (amended). If the wrapped callable raises, the wrapper pops its frame and hands the
  same error to its caller; it computes no duration, appends no record for that call and
  runs no flush, whatever the duration: the state is the one at entry except for the counter
  and the records of the calls made inside, none of which carries the id of this call.
\<close>

theorem raising_call_leaves_no_record:
  "cout c = Raised err \<Longrightarrow>
     run_call fuel c s =
       Some (Raised err,
             s\<lparr>call_id_counter := call_id_counter s + int (ncalls c),
               tracking := tracking s @
                 nesting_body (Some (call_id_counter s + 1)) (Suc (length (call_stack s)))
                   (call_id_counter s + 1) (cbody c)\<rparr>) \<and>
     (\<forall>e\<in>set (nesting_body (Some (call_id_counter s + 1)) (Suc (length (call_stack s)))
                  (call_id_counter s + 1) (cbody c)).
        call_id e \<noteq> call_id_counter s + 1)"
proof -
  assume r: "cout c = Raised err"
  obtain name is_async conf dur out body where c: "c = Call name is_async conf dur out body"
    by (cases c)
  have nr: "\<not> recorded c" using r by (simp add: recorded_def)
  have ids: "\<forall>e\<in>set (nesting_body (Some (call_id_counter s + 1)) (Suc (length (call_stack s)))
                  (call_id_counter s + 1) (cbody c)). call_id_counter s + 1 < call_id e"
    using nesting_ids(2)[of "Some (call_id_counter s + 1)" "call_id_counter s + 1"] by simp
  show ?thesis using nr r ids by (auto simp: run_call_eq at_exit_def c)
qed

theorem raising_call_leaves_no_record_witness:
  "cout ex_raising = Raised ''ValueError'' \<and>
   run_call 1 ex_raising init_ctx =
     Some (Raised ''ValueError'', init_ctx\<lparr>call_id_counter := 1, tracking := []\<rparr>)"
  using raising_call_leaves_no_record[of ex_raising "''ValueError''" 1 init_ctx]
  by (simp add: ex_raising_def init_ctx_def)

theorem raising_call_counterexample:
  "run_call 1 ex_raising init_ctx = Some (Raised ''ValueError'', init_ctx\<lparr>call_id_counter := 1\<rparr>) \<and>
   minimum_duration (cconf ex_raising) \<le> cdur ex_raising \<and>
   tracking (init_ctx\<lparr>call_id_counter := 1\<rparr>) = []"
  by (simp add: ex_raising_def init_ctx_def ex_conf_def)

section \<open>The flush trigger\<close>

text \<open>
  C1 (amended). For an outermost call (empty stack at entry) in a context that satisfies the
  invariant, the wrapper returns the outcome of the wrapped function. If the function
  returned and its duration reached \<^verbatim>\<open>minimum_duration\<close>, the flush has run on the
  state the bookkeeping left, before the wrapper returns, and the tracking list and the
  stack are empty afterwards. Otherwise (a shorter duration, or an error) no flush runs and
  nothing is written: the stack is empty, and the tracking list keeps the records of the
  calls made inside.
\<close>

theorem flush_only_after_recorded_outermost_call:
  assumes "call_stack s = []" and "ctx_ok s"
    and "nat (call_id_counter s) + ncalls c < fuel"
  shows "\<exists>s'. run_call fuel c s = Some (cout c, s') \<and>
           (if cout c = Returned \<and> minimum_duration (cconf c) \<le> cdur c
            then log_top_functions fuel (log_path (cconf c)) (top_k (cconf c)) (at_exit c s)
                   = Some s' \<and> tracking s' = [] \<and> call_stack s' = []
            else s' = at_exit c s \<and> files s' = files s \<and> call_stack s' = [] \<and>
                 tracking s' = tracking s @
                   nesting_body (Some (call_id_counter s + 1)) 1 (call_id_counter s + 1) (cbody c))"
proof -
  obtain s' where s': "run_call fuel c s = Some (cout c, s')"
    using run_call_terminates[OF assms(2,3)] by blast
  obtain name is_async conf dur out body where c: "c = Call name is_async conf dur out body"
    by (cases c)
  show ?thesis
  proof (cases "recorded c")
    case True
    then have f: "log_top_functions fuel (log_path (cconf c)) (top_k (cconf c)) (at_exit c s)
       = Some s'" using s' assms(1) by (auto simp: run_call_eq)
    have "call_stack (at_exit c s) = []" using assms(1) by (simp add: at_exit_def)
    then have "tracking s' = [] \<and> call_stack s' = []"
      using log_top_functions_result(1,3)[OF f] by simp
    then show ?thesis using s' f True by (auto simp: recorded_def)
  next
    case False
    then have "s' = at_exit c s" using s' by (auto simp: run_call_eq)
    then show ?thesis using s' False assms(1)
      by (auto simp: recorded_def at_exit_def c stack_top_def)
  qed
qed

theorem flush_only_after_recorded_outermost_call_witness:
  "call_stack init_ctx = [] \<and> ctx_ok init_ctx \<and>
   nat (call_id_counter init_ctx) + ncalls ex_outer < 5 \<and>
   (\<exists>s'. run_call 5 ex_outer init_ctx = Some (Returned, s') \<and>
      tracking s' = [] \<and> call_stack s' = [])"
proof -
  have h1: "call_stack init_ctx = []" by (simp add: init_ctx_def)
  have h3: "nat (call_id_counter init_ctx) + ncalls ex_outer < 5"
    by (simp add: init_ctx_def ex_outer_def ex_inner_def ex_leaf_def)
  have r: "cout ex_outer = Returned \<and> minimum_duration (cconf ex_outer) \<le> cdur ex_outer"
    by (simp add: ex_outer_def ex_conf_def)
  show ?thesis
    using flush_only_after_recorded_outermost_call[OF h1 ctx_ok_init h3] h1 h3 r ctx_ok_init
    by auto
qed

theorem flush_regardless_of_duration_counterexample:
  "call_stack init_ctx = [] \<and>
   run_call 5 ex_fast_outer init_ctx =
     Some (Returned, init_ctx\<lparr>call_id_counter := 2,
        tracking := [\<lparr>func_name = ''inner'', duration = 3 / 50, func_type = ''sync'',
                      depth = 1, parent_id = Some 1, call_id = 2\<rparr>]\<rparr>) \<and>
   tracking (init_ctx\<lparr>call_id_counter := 2,
        tracking := [\<lparr>func_name = ''inner'', duration = 3 / 50, func_type = ''sync'',
                      depth = 1, parent_id = Some 1, call_id = 2\<rparr>]\<rparr>) \<noteq> []"
  by (simp add: ex_fast_outer_def init_ctx_def ex_conf_def)

section \<open>Call ids grow and the traversals terminate\<close>

text \<open>
  C10. In a context that satisfies the invariant (as the initial one does), the tracking
  list that a wrapper leaves when its bookkeeping is done holds only records with a
  positive call id that is strictly greater than the parent id. Hence in the children
  mapping built from it every child has a larger id than its key, and with more recursion
  depth than calls made so far the tree formatting, the node collection and the filter
  rebuild (followed by the formatting of what it kept) all return, and so does the wrapper,
  in a state that satisfies the invariant again.
\<close>

theorem call_ids_increase_and_traversals_terminate:
  assumes "ctx_ok s" and "nat (call_id_counter s) + ncalls c < fuel"
  shows "run_call fuel c s =
           (if call_stack s = [] \<and> recorded c
            then map_option (Pair Returned)
                   (log_top_functions fuel (log_path (cconf c)) (top_k (cconf c)) (at_exit c s))
            else Some (cout c, at_exit c s)) \<and>
         (\<forall>e\<in>set (tracking (at_exit c s)).
            0 < call_id e \<and> (\<forall>p. parent_id e = Some p \<longrightarrow> p < call_id e)) \<and>
         (\<exists>s'. run_call fuel c s = Some (cout c, s') \<and> ctx_ok s') \<and>
         (\<forall>rs T. build_sorted (tracking (at_exit c s)) = (rs, T) \<longrightarrow>
            (\<forall>k cs. T k = Some cs \<longrightarrow> (\<forall>e\<in>set cs. k < call_id e)) \<and>
            format_roots fuel T rs \<noteq> None \<and>
            collect_nodes fuel T rs \<noteq> None \<and>
            (\<forall>keep. \<exists>fl T'. filter_tree fuel keep T rs = Some (fl, T') \<and>
               format_roots fuel T' fl \<noteq> None))"
proof -
  let ?t = "at_exit c s"
  let ?n = "call_id_counter ?t"
  have ok: "ctx_ok ?t" by (rule ctx_ok_at_exit[OF assms(1)])
  then have ids: "ids_ok ?n (tracking ?t)" by (simp add: ctx_ok_def)
  have fuel: "nat ?n < fuel" "0 < fuel"
    using assms by (simp_all add: at_exit_def ctx_ok_def nat_add_distrib)
  have trav: "(\<forall>k cs. T k = Some cs \<longrightarrow> (\<forall>e\<in>set cs. k < call_id e)) \<and>
            format_roots fuel T rs \<noteq> None \<and>
            collect_nodes fuel T rs \<noteq> None \<and>
            (\<forall>keep. \<exists>fl T'. filter_tree fuel keep T rs = Some (fl, T') \<and>
               format_roots fuel T' fl \<noteq> None)"
    if b: "build_sorted (tracking ?t) = (rs, T)" for rs T
  proof -
    have tb: "tree_bounded ?n T" using build_sorted_bounded[OF ids] b by simp
    have rs: "set rs \<subseteq> set (tracking ?t)" using build_sorted_roots[of "tracking ?t"] b by simp
    have small: "\<forall>c\<in>set rs. nat (?n - call_id c) < fuel"
      using rs ids fuel(1) unfolding ids_ok_def by fastforce
    have f: "\<exists>fl T'. filter_tree fuel keep T rs = Some (fl, T') \<and> format_roots fuel T' fl \<noteq> None"
      for keep
    proof -
      obtain fl T' where r: "filter_tree fuel keep T rs = Some (fl, T')" "set fl \<subseteq> set rs"
        "tree_bounded ?n T'"
        using filter_terminates[OF tb fuel(2) small] by blast
      have "format_roots fuel T' fl \<noteq> None"
        using format_roots_terminates[OF r(3)] small r(2) by blast
      then show ?thesis using r(1) by blast
    qed
    show ?thesis
      using tb format_roots_terminates[OF tb small] collect_terminates[OF tb fuel(2) small] f
      unfolding tree_bounded_def by blast
  qed
  show ?thesis
    using ids run_call_terminates[OF assms] trav
    unfolding ids_ok_def by (simp add: run_call_eq)
qed

theorem call_ids_increase_and_traversals_terminate_witness:
  "ctx_ok init_ctx \<and> nat (call_id_counter init_ctx) + ncalls ex_outer < 5 \<and>
   (\<exists>s'. run_call 5 ex_outer init_ctx = Some (cout ex_outer, s') \<and> ctx_ok s')"
proof -
  have h: "nat (call_id_counter init_ctx) + ncalls ex_outer < 5"
    by (simp add: init_ctx_def ex_outer_def ex_inner_def ex_leaf_def)
  show ?thesis
    using call_ids_increase_and_traversals_terminate[OF ctx_ok_init h] h ctx_ok_init by blast
qed

section \<open>A top\_k that is not positive\<close>

lemma filter_tree_nothing_kept:
  "collect_nodes fuel T es = Some ns \<Longrightarrow> filter_tree fuel {} T es = Some ([], T)"
proof (induction fuel arbitrary: es ns)
  case 0
  then show ?case by simp
next
  case (Suc fuel)
  from Suc.prems show ?case
  proof (induction es arbitrary: ns)
    case Nil
    then show ?case by simp
  next
    case (Cons e es)
    show ?case
    proof (cases "T (call_id e)")
      case None
      then obtain ns' where "collect_nodes (Suc fuel) T es = Some ns'"
        using Cons.prems by auto
      then show ?thesis using Cons.IH None by simp
    next
      case (Some cs)
      then obtain sub ns' where "collect_nodes fuel T cs = Some sub"
        "collect_nodes (Suc fuel) T es = Some ns'"
        using Cons.prems by (auto split: option.splits)
      then show ?thesis using Cons.IH Suc.IH Some by simp
    qed
  qed
qed

text \<open>
  C7 (amended). For \<^verbatim>\<open>top_k = 0\<close> the kept set is empty; for a negative \<^verbatim>\<open>top_k = -m\<close>
  the slice \<^verbatim>\<open>all_nodes[:top_k]\<close> keeps all but the last \<open>m\<close> nodes of the order by
  descending duration, so the kept set is empty only when \<open>m\<close> is at least the number of
  collected nodes. When the kept set is empty for one of these two reasons, no node
  survives the filter and the flush writes nothing (and clears the tracking list and the
  stack).
\<close>

theorem nonpositive_top_k_keeps_slice:
  assumes "k \<le> 0"
  shows "top_call_ids_of k ns =
           (if k = 0 then {}
            else call_id ` set (take (length ns - nat (- k))
                                  (sort_key (\<lambda>x. - duration x) ns))) \<and>
         (k = 0 \<or> int (length ns) \<le> - k \<longrightarrow> top_call_ids_of k ns = {}) \<and>
         (tracking s \<noteq> [] \<longrightarrow> build_sorted (tracking s) = (rs, T) \<longrightarrow>
          collect_nodes fuel T rs = Some ns \<longrightarrow> k = 0 \<or> int (length ns) \<le> - k \<longrightarrow>
            log_top_functions fuel p (TopK k) s = Some (s\<lparr>tracking := [], call_stack := []\<rparr>))"
proof -
  have slice: "top_call_ids_of k ns =
      (if k = 0 then {}
       else call_id ` set (take (length ns - nat (- k)) (sort_key (\<lambda>x. - duration x) ns)))"
    using assms by (simp add: top_call_ids_of_def slice_to_def)
  have empty: "top_call_ids_of k ns = {}" if "k = 0 \<or> int (length ns) \<le> - k"
    using that unfolding slice by auto
  have "log_top_functions fuel p (TopK k) s = Some (s\<lparr>tracking := [], call_stack := []\<rparr>)"
    if "tracking s \<noteq> []" "build_sorted (tracking s) = (rs, T)"
      "collect_nodes fuel T rs = Some ns" "k = 0 \<or> int (length ns) \<le> - k"
    using that(1,2,3) empty[OF that(4)] filter_tree_nothing_kept[OF that(3)]
    by (simp add: log_top_functions_def apply_top_k_def)
  then show ?thesis using slice empty by blast
qed

theorem nonpositive_top_k_keeps_slice_witness:
  "(0::int) \<le> 0 \<and> top_call_ids_of 0 [ex_entry ''a'' 3 None 1] = {} \<and>
   top_call_ids_of (- 1) [ex_entry ''b'' 2 (Some 1) 2, ex_entry ''a'' 3 None 1] = {1}"
  using nonpositive_top_k_keeps_slice[of 0 "[ex_entry ''a'' 3 None 1]"]
    nonpositive_top_k_keeps_slice[of "- 1" "[ex_entry ''b'' 2 (Some 1) 2, ex_entry ''a'' 3 None 1]"]
  by (simp add: ex_entry_def)

theorem negative_top_k_counterexample:
  "top_call_ids_of (- 1)
     [ex_entry ''outer'' (1 / 10) None 1, ex_entry ''inner'' (3 / 50) (Some 1) 2] = {1} \<and>
   observe ''function_times.log'' (run_call 5 ex_outer_neg init_ctx) =
     Some (Returned, [], 2, [],
           ''outer (sync) took 0.1000 seconds'' @ [CHR 0x0A] @
           ''    '' @ last_prefix @ ''inner (sync) took 0.0600 seconds'' @ [CHR 0x0A] @
           ''------'' @ [CHR 0x0A])"
proof -
  have 1: "top_call_ids_of (- 1)
     [ex_entry ''outer'' (1 / 10) None 1, ex_entry ''inner'' (3 / 50) (Some 1) 2] = {1}"
    by (simp add: top_call_ids_of_def slice_to_def ex_entry_def)
  have 2: "observe ''function_times.log'' (run_call 5 ex_outer_neg init_ctx) =
     Some (Returned, [], 2, [],
           ''outer (sync) took 0.1000 seconds'' @ [CHR 0x0A] @
           ''    '' @ last_prefix @ ''inner (sync) took 0.0600 seconds'' @ [CHR 0x0A] @
           ''------'' @ [CHR 0x0A])"
    by code_simp
  show ?thesis using 1 2 by blast
qed

end
